theory Spec2Isabelle
  imports Main "HOL-Library.Word"
begin

unbundle bit_operations_syntax

section \<open>Values, context keys and the context chain\<close>

text \<open>
  A Go value of interface type \<open>any\<close>. \<open>NilV\<close> is the nil interface; every other
  constructor is a non-nil value tagged with its dynamic type. \<open>OtherV\<close> stands for
  a value of any dynamic type the package does not look into.
\<close>

datatype anyval = NilV | StrV string | IntV int | BoolV bool | OtherV nat

text \<open>
  Keys of \<open>context.WithValue\<close> are interface values compared with \<open>==\<close>: two keys
  are equal when their dynamic types and their values are equal. The constructor is
  the dynamic type: \<open>StringKey\<close> is the builtin \<open>string\<close> (the key type of
  \<open>AddMetadata\<close>), \<open>metadataKey\<close> the private string type of metadata.go,
  \<open>chainNameKey\<close> and \<open>middlewareIndexKey\<close> the empty structs of chain.go.
\<close>

datatype ctxkey =
    StringKey string
  | metadataKey string
  | chainNameKey
  | middlewareIndexKey
  | OtherKey nat

definition userKey :: ctxkey where "userKey = metadataKey ''user''"
definition sessionKey :: ctxkey where "sessionKey = metadataKey ''session''"
definition requestKey :: ctxkey where "requestKey = metadataKey ''request_id''"

text \<open>
  A non-nil \<open>context.Context\<close>: the empty root, or a parent extended by one
  key/value pair. \<open>Value\<close> walks from the newest pair to the root and yields the nil
  interface when no pair has the key.
\<close>

datatype Context = Background | WithValue Context ctxkey anyval

fun Value :: "Context \<Rightarrow> ctxkey \<Rightarrow> anyval" where
  "Value Background key = NilV"
| "Value (WithValue parent k v) key = (if k = key then v else Value parent key)"

text \<open>The type assertion \<open>v.(string)\<close> in its two-result form.\<close>

fun assert_string :: "anyval \<Rightarrow> string \<times> bool" where
  "assert_string (StrV s) = (s, True)"
| "assert_string _ = ('''', False)"

section \<open>metadata.go\<close>

definition AddMetadata :: "Context \<Rightarrow> string \<Rightarrow> anyval \<Rightarrow> Context" where
  "AddMetadata ctx key val = WithValue ctx (StringKey key) val"

definition GetMetadata :: "Context \<Rightarrow> string \<Rightarrow> anyval \<times> bool" where
  "GetMetadata ctx key = (let val = Value ctx (StringKey key) in (val, val \<noteq> NilV))"

definition GetMetadataString :: "Context \<Rightarrow> string \<Rightarrow> string \<times> bool" where
  "GetMetadataString ctx key = assert_string (Value ctx (StringKey key))"

definition SetUserID :: "Context \<Rightarrow> string \<Rightarrow> Context" where
  "SetUserID ctx userID = WithValue ctx userKey (StrV userID)"

definition GetUserID :: "Context \<Rightarrow> string \<times> bool" where
  "GetUserID ctx = assert_string (Value ctx userKey)"

definition SetRequestID :: "Context \<Rightarrow> string \<Rightarrow> Context" where
  "SetRequestID ctx requestID = WithValue ctx requestKey (StrV requestID)"

definition GetRequestID :: "Context \<Rightarrow> string \<times> bool" where
  "GetRequestID ctx = assert_string (Value ctx requestKey)"

definition GetChainName :: "Context \<Rightarrow> string \<times> bool" where
  "GetChainName ctx = assert_string (Value ctx chainNameKey)"

text \<open>
  What "set on the context chain" means for a string key of the open metadata bag:
  \<open>was_set\<close> holds when some pair of the chain has the key, \<open>latest\<close> is the value
  of the newest such pair.
\<close>

fun was_set :: "Context \<Rightarrow> string \<Rightarrow> bool" where
  "was_set Background key = False"
| "was_set (WithValue parent k v) key = (k = StringKey key \<or> was_set parent key)"

fun latest :: "Context \<Rightarrow> string \<Rightarrow> anyval option" where
  "latest Background key = None"
| "latest (WithValue parent k v) key = (if k = StringKey key then Some v else latest parent key)"

section \<open>Errors and stage outcomes\<close>

text \<open>
  Go error values: \<open>errorString\<close> is what \<open>fmt.Errorf\<close> builds from a format
  without \<open>%w\<close> (and \<open>errors.New\<close>), \<open>wrapError\<close> what it builds with one \<open>%w\<close>:
  the formatted message and the wrapped error.
\<close>

datatype error = errorString string | wrapError string error

fun Error :: "error \<Rightarrow> string" where
  "Error (errorString s) = s"
| "Error (wrapError m e) = m"

fun Unwrap :: "error \<Rightarrow> error option" where
  "Unwrap (errorString s) = None"
| "Unwrap (wrapError m e) = Some e"

text \<open>
  How a call of a stage ends: it returns its three results (the context may be the nil
  interface, \<open>None\<close>; the error is \<open>None\<close> for nil), or it panics with a value.
  A stage reads and writes the world outside the pipeline (\<open>'w\<close>: counters, logs,
  clocks, random sources), passed in and returned.
\<close>

datatype outcome = Returned "Context option" anyval "error option" | Panicked anyval

type_synonym 'w MiddlewareFunc = "Context \<Rightarrow> anyval \<Rightarrow> 'w \<Rightarrow> outcome \<times> 'w"

section \<open>bultin.go: request identifiers\<close>

text \<open>
  \<open>crypto/rand\<close> is outside the program: the source of random bytes is a stream, and
  \<open>rand_Read\<close> fills a buffer of \<open>n\<close> bytes from it and advances it.
\<close>

type_synonym rand_source = "nat \<Rightarrow> 8 word"

definition rand_Read :: "nat \<Rightarrow> rand_source \<Rightarrow> 8 word list \<times> rand_source" where
  "rand_Read n src = (map src [0..<n], \<lambda>i. src (i + n))"

definition hextable :: string where
  "hextable = ''0123456789abcdef''"

fun hex_EncodeToString :: "8 word list \<Rightarrow> string" where
  "hex_EncodeToString [] = []"
| "hex_EncodeToString (v # src) =
     hextable ! unat (drop_bit 4 v) # hextable ! unat (v AND 0x0f) # hex_EncodeToString src"

definition generateRequestID :: "rand_source \<Rightarrow> string \<times> rand_source" where
  "generateRequestID src = (let (bytes, src') = rand_Read 8 src in (hex_EncodeToString bytes, src'))"

text \<open>
  The stage built by \<open>RequestIDWithGenerator\<close>. The generator is a \<open>func() string\<close>
  with effects on the world; it is called only on the second branch.
\<close>

definition RequestIDWithGenerator :: "('w \<Rightarrow> string \<times> 'w) \<Rightarrow> 'w MiddlewareFunc" where
  "RequestIDWithGenerator generator ctx input w =
     (if \<not> snd (GetRequestID ctx) then (Returned (Some ctx) input None, w)
      else let (requestID, w') = generator w;
               ctx' = SetRequestID ctx requestID
           in (Returned (Some ctx') input None, w'))"

definition RequestID :: "rand_source MiddlewareFunc" where
  "RequestID = RequestIDWithGenerator generateRequestID"

section \<open>bultin.go: panic recovery\<close>

text \<open>
  The logging sink is outside the program: a logger is the effect of one record on the
  world. \<open>debug.Stack()\<close> is a string supplied by the runtime.
\<close>

datatype slog_Level = LevelDebug | LevelInfo | LevelWarn | LevelError

record log_record =
  level :: slog_Level
  msg :: string
  attrs :: "(string \<times> anyval) list"

type_synonym 'w Logger = "log_record \<Rightarrow> 'w \<Rightarrow> 'w"

text \<open>
  A function whose only deferred call is \<open>func() { if r := recover(); r != nil { ... } }\<close>
  and whose results are unnamed: when the body panics with \<open>r\<close>, \<open>recover()\<close> yields
  \<open>r\<close>, the panic stops and the function returns the zero values (nil, nil, nil);
  when the body returns, \<open>recover()\<close> yields nil and the results stand.
\<close>

definition defer_recover :: "(anyval \<Rightarrow> 'w \<Rightarrow> 'w) \<Rightarrow> outcome \<times> 'w \<Rightarrow> outcome \<times> 'w" where
  "defer_recover deferred body =
     (case body of
        (Panicked r, w) \<Rightarrow> (Returned None NilV None, deferred r w)
      | (Returned c out e, w) \<Rightarrow> (Returned c out e, deferred NilV w))"

text \<open>The deferred function of \<open>Recovery\<close>, given the value \<open>r\<close> of \<open>recover()\<close>.\<close>

definition Recovery_deferred :: "'w Logger \<Rightarrow> string \<Rightarrow> Context \<Rightarrow> anyval \<Rightarrow> 'w \<Rightarrow> 'w" where
  "Recovery_deferred logger stack ctx r w =
     (if r \<noteq> NilV then
        let requestID = fst (GetRequestID ctx);
            chainName = fst (GetChainName ctx);
            logAttrs = [(''panic'', r), (''stack'', StrV stack)];
            logAttrs = (if requestID \<noteq> [] then logAttrs @ [(''request_id'', StrV requestID)]
                        else logAttrs);
            logAttrs = (if chainName \<noteq> [] then logAttrs @ [(''chain_name'', StrV chainName)]
                        else logAttrs)
        in logger \<lparr>level = LevelError, msg = ''Panic recovered in middleware'',
                    attrs = logAttrs\<rparr> w
      else w)"

text \<open>
  \<open>Recovery slog_Default stack logger\<close> is the stage \<open>Recovery(logger)\<close> returns; a nil
  logger is replaced by \<open>slog.Default()\<close>. The body of the stage is the single
  statement \<open>return ctx, input, nil\<close>.
\<close>

definition Recovery :: "'w Logger \<Rightarrow> string \<Rightarrow> 'w Logger option \<Rightarrow> 'w MiddlewareFunc" where
  "Recovery slog_Default stack logger ctx input w =
     (let logger = (case logger of None \<Rightarrow> slog_Default | Some l \<Rightarrow> l)
      in defer_recover (Recovery_deferred logger stack ctx) (Returned (Some ctx) input None, w))"

section \<open>bultin.go: the token bucket\<close>

text \<open>
  Instants are readings of the monotonic clock in nanoseconds; a \<open>time.Duration\<close> is a
  signed 64-bit count of nanoseconds, and \<open>Time.Sub\<close> saturates at its bounds.
\<close>

type_synonym Time = int
type_synonym Duration = "64 word"

definition maxDuration :: int where "maxDuration = 2 ^ 63 - 1"
definition minDuration :: int where "minDuration = - (2 ^ 63)"

definition time_Sub :: "Time \<Rightarrow> Time \<Rightarrow> int" where
  "time_Sub t u = (if t - u > maxDuration then maxDuration
                   else if t - u < minDuration then minDuration else t - u)"

record tokenBucket =
  tokens :: int
  capacity :: int
  refillRate :: Duration
  lastRefill :: Time

text \<open>
  \<open>RateLimit requestsPerDuration duration now\<close> is the bucket that the constructor
  creates when \<open>time.Now()\<close> is \<open>now\<close>; \<open>RateLimit_stage now\<close> is one invocation of the
  returned closure when \<open>time.Now()\<close> is \<open>now\<close>, with the bucket it owns as its world.
\<close>

definition RateLimit :: "int \<Rightarrow> Duration \<Rightarrow> Time \<Rightarrow> tokenBucket" where
  "RateLimit requestsPerDuration duration now =
     \<lparr>tokens = requestsPerDuration, capacity = requestsPerDuration,
      refillRate = duration, lastRefill = now\<rparr>"

definition RateLimit_stage :: "Time \<Rightarrow> tokenBucket MiddlewareFunc" where
  "RateLimit_stage now ctx input bucket =
     (let bucket = (if time_Sub now (lastRefill bucket) \<ge> sint (refillRate bucket)
                    then bucket\<lparr>tokens := capacity bucket, lastRefill := now\<rparr>
                    else bucket)
      in if tokens bucket \<le> 0
         then (Returned (Some ctx) NilV (Some (errorString ''rate limit exceeded'')), bucket)
         else let bucket = bucket\<lparr>tokens := tokens bucket - 1\<rparr>;
                  ctx = AddMetadata ctx ''rate_limit_remaining'' (IntV (tokens bucket))
              in (Returned (Some ctx) input None, bucket))"

text \<open>Sequential invocations of one stage instance, each at its own instant.\<close>

fun invoke_seq :: "(Time \<times> Context \<times> anyval) list \<Rightarrow> tokenBucket \<Rightarrow> outcome list \<times> tokenBucket" where
  "invoke_seq [] bucket = ([], bucket)"
| "invoke_seq ((now, ctx, input) # rest) bucket =
     (let (r, bucket') = RateLimit_stage now ctx input bucket;
          (rs, bucket'') = invoke_seq rest bucket'
      in (r # rs, bucket''))"

section \<open>chain.go: slices and chains in memory\<close>

text \<open>
  A chain is a pointer to a struct whose \<open>middlewares\<close> field is a slice: a window on
  a backing array. Whether building a chain from another one leaves the other one alone
  depends on which arrays are shared, so arrays and chain structs live in a store. An
  address is an index into the store; allocation appends, so a fresh address is the
  length of the store. An element of an array is a function value or nil (\<open>None\<close>).
  An address that was never allocated stands for the nil pointer.
\<close>

type_synonym addr = nat

record slice =
  array :: addr
  ofs :: nat
  len :: nat

record Chain =
  middlewares :: slice
  name :: string

record 'w heap =
  arrays :: "'w MiddlewareFunc option list list"
  chains :: "Chain list"

definition empty_heap :: "'w heap" where
  "empty_heap = \<lparr>arrays = [], chains = []\<rparr>"

definition nil_dereference :: anyval where
  "nil_dereference = StrV ''runtime error: invalid memory address or nil pointer dereference''"

definition slice_out_of_range :: anyval where
  "slice_out_of_range = StrV ''runtime error: slice bounds out of range''"

definition deref :: "'w heap \<Rightarrow> addr \<Rightarrow> Chain option" where
  "deref h c = (if c < length (chains h) then Some (chains h ! c) else None)"

text \<open>The elements a slice shows: \<open>len\<close> elements of its array from \<open>ofs\<close> on.\<close>

definition elems :: "'w heap \<Rightarrow> slice \<Rightarrow> 'w MiddlewareFunc option list" where
  "elems h s = (if array s < length (arrays h)
                then take (len s) (drop (ofs s) (arrays h ! array s)) else [])"

text \<open>\<open>make([]MiddlewareFunc, n)\<close>: a new array of \<open>n\<close> nil elements.\<close>

definition make_slice :: "nat \<Rightarrow> 'w heap \<Rightarrow> slice \<times> 'w heap" where
  "make_slice n h =
     (\<lparr>array = length (arrays h), ofs = 0, len = n\<rparr>, h\<lparr>arrays := arrays h @ [replicate n None]\<rparr>)"

text \<open>
  \<open>copy(dst, src)\<close> where \<open>src\<close> has already been read: the first
  \<open>min(len(dst), len(src))\<close> elements of \<open>dst\<close> are overwritten in its array.
\<close>

definition copy_slice :: "slice \<Rightarrow> 'w MiddlewareFunc option list \<Rightarrow> 'w heap \<Rightarrow> 'w heap" where
  "copy_slice dst src h =
     (let n = min (len dst) (length src);
          a = arrays h ! array dst;
          a' = take (ofs dst) a @ take n src @ drop (ofs dst + n) a
      in if array dst < length (arrays h) then h\<lparr>arrays := (arrays h)[array dst := a']\<rparr> else h)"

text \<open>The slice expression \<open>s[i:]\<close>, which panics when \<open>i > len(s)\<close>.\<close>

definition slice_from :: "slice \<Rightarrow> nat \<Rightarrow> slice option" where
  "slice_from s i =
     (if i \<le> len s then Some \<lparr>array = array s, ofs = ofs s + i, len = len s - i\<rparr> else None)"

text \<open>\<open>append([]MiddlewareFunc{}, middlewares...)\<close>: a new array holding the arguments.\<close>

definition append_to_empty :: "'w MiddlewareFunc option list \<Rightarrow> 'w heap \<Rightarrow> slice \<times> 'w heap" where
  "append_to_empty mws h =
     (\<lparr>array = length (arrays h), ofs = 0, len = length mws\<rparr>, h\<lparr>arrays := arrays h @ [mws]\<rparr>)"

text \<open>\<open>&Chain{...}\<close>: a new struct, and its address.\<close>

definition new_Chain :: "Chain \<Rightarrow> 'w heap \<Rightarrow> addr \<times> 'w heap" where
  "new_Chain ch h = (length (chains h), h\<lparr>chains := chains h @ [ch]\<rparr>)"

subsection \<open>Construction and extension\<close>

definition NewChain :: "'w MiddlewareFunc option list \<Rightarrow> 'w heap \<Rightarrow> addr \<times> 'w heap" where
  "NewChain mws h =
     (let (s, h1) = append_to_empty mws h
      in new_Chain \<lparr>middlewares = s, name = []\<rparr> h1)"

definition NewNamedChain :: "string \<Rightarrow> 'w MiddlewareFunc option list \<Rightarrow> 'w heap \<Rightarrow> addr \<times> 'w heap" where
  "NewNamedChain nm mws h =
     (let (s, h1) = append_to_empty mws h
      in new_Chain \<lparr>middlewares = s, name = nm\<rparr> h1)"

text \<open>
  The methods have a pointer receiver: on the nil pointer the first field access
  panics. A call that returns yields \<open>Inr\<close>, a panic \<open>Inl\<close>, both with the store after it.
\<close>

definition Append :: "addr \<Rightarrow> 'w MiddlewareFunc option list \<Rightarrow> 'w heap \<Rightarrow> (anyval + addr) \<times> 'w heap" where
  "Append c mws h =
     (case deref h c of
        None \<Rightarrow> (Inl nil_dereference, h)
      | Some ch \<Rightarrow>
          let (newMiddlewares, h1) = make_slice (len (middlewares ch) + length mws) h;
              h2 = copy_slice newMiddlewares (elems h1 (middlewares ch)) h1
          in case slice_from newMiddlewares (len (middlewares ch)) of
               None \<Rightarrow> (Inl slice_out_of_range, h2)
             | Some rest \<Rightarrow>
                 let h3 = copy_slice rest mws h2;
                     (c', h4) = new_Chain \<lparr>middlewares = newMiddlewares, name = name ch\<rparr> h3
                 in (Inr c', h4))"

definition Prepend :: "addr \<Rightarrow> 'w MiddlewareFunc option list \<Rightarrow> 'w heap \<Rightarrow> (anyval + addr) \<times> 'w heap" where
  "Prepend c mws h =
     (case deref h c of
        None \<Rightarrow> (Inl nil_dereference, h)
      | Some ch \<Rightarrow>
          let (newMiddlewares, h1) = make_slice (length mws + len (middlewares ch)) h;
              h2 = copy_slice newMiddlewares mws h1
          in case slice_from newMiddlewares (length mws) of
               None \<Rightarrow> (Inl slice_out_of_range, h2)
             | Some rest \<Rightarrow>
                 let h3 = copy_slice rest (elems h2 (middlewares ch)) h2;
                     (c', h4) = new_Chain \<lparr>middlewares = newMiddlewares, name = name ch\<rparr> h3
                 in (Inr c', h4))"

definition Clone :: "addr \<Rightarrow> 'w heap \<Rightarrow> (anyval + addr) \<times> 'w heap" where
  "Clone c h =
     (case deref h c of
        None \<Rightarrow> (Inl nil_dereference, h)
      | Some ch \<Rightarrow>
          let (mws, h1) = make_slice (len (middlewares ch)) h;
              h2 = copy_slice mws (elems h1 (middlewares ch)) h1;
              (c', h3) = new_Chain \<lparr>middlewares = mws, name = name ch\<rparr> h2
          in (Inr c', h3))"

definition Len :: "addr \<Rightarrow> 'w heap \<Rightarrow> anyval + nat" where
  "Len c h = (case deref h c of None \<Rightarrow> Inl nil_dereference | Some ch \<Rightarrow> Inr (len (middlewares ch)))"

definition Name :: "addr \<Rightarrow> 'w heap \<Rightarrow> anyval + string" where
  "Name c h = (case deref h c of None \<Rightarrow> Inl nil_dereference | Some ch \<Rightarrow> Inr (name ch))"

subsection \<open>Execution\<close>

text \<open>The verb \<open>%d\<close> on a non-negative index, and the error \<open>Then\<close> builds with \<open>%w\<close>.\<close>

definition digit :: "nat \<Rightarrow> char" where
  "digit d = ''0123456789'' ! d"

function itoa :: "nat \<Rightarrow> string" where
  "itoa n = (if n < 10 then [digit n] else itoa (n div 10) @ [digit (n mod 10)])"
  by pat_completeness auto
termination
  by (relation "measure id") auto

declare itoa.simps [simp del]

definition middleware_failed :: "nat \<Rightarrow> error \<Rightarrow> error" where
  "middleware_failed i err = wrapError (''middleware '' @ itoa i @ '' failed: '' @ Error err) err"

text \<open>\<open>context.WithValue\<close> panics on a nil parent.\<close>

definition context_WithValue :: "Context option \<Rightarrow> ctxkey \<Rightarrow> anyval \<Rightarrow> anyval + Context" where
  "context_WithValue parent key val =
     (case parent of
        None \<Rightarrow> Inl (StrV ''cannot create context from nil parent'')
      | Some p \<Rightarrow> Inr (WithValue p key val))"

text \<open>
  The \<open>for i, mw := range c.middlewares\<close> loop from index \<open>i\<close> on, over the elements
  still to run. Calling a nil function value panics; a panic of a stage is not
  recovered by \<open>Then\<close> and leaves it.
\<close>

fun Then_loop :: "'w MiddlewareFunc option list \<Rightarrow> nat \<Rightarrow> Context option \<Rightarrow> anyval \<Rightarrow> 'w \<Rightarrow> outcome \<times> 'w" where
  "Then_loop [] i currentCtx output w = (Returned currentCtx output None, w)"
| "Then_loop (mw # rest) i currentCtx output w =
     (case context_WithValue currentCtx middlewareIndexKey (IntV (int i)) of
        Inl p \<Rightarrow> (Panicked p, w)
      | Inr ctx \<Rightarrow>
          (case mw of
             None \<Rightarrow> (Panicked nil_dereference, w)
           | Some f \<Rightarrow>
               (case f ctx output w of
                  (Panicked p, w') \<Rightarrow> (Panicked p, w')
                | (Returned ctx' out' (Some err), w') \<Rightarrow>
                    (Returned ctx' NilV (Some (middleware_failed i err)), w')
                | (Returned ctx' out' None, w') \<Rightarrow> Then_loop rest (Suc i) ctx' out' w')))"

definition Then :: "addr \<Rightarrow> Context option \<Rightarrow> anyval \<Rightarrow> 'w heap \<Rightarrow> 'w \<Rightarrow> outcome \<times> 'w" where
  "Then c ctx input h w =
     (case deref h c of
        None \<Rightarrow> (Panicked nil_dereference, w)
      | Some ch \<Rightarrow>
          if len (middlewares ch) = 0 then (Returned ctx input None, w)
          else if name ch \<noteq> [] then
            (case context_WithValue ctx chainNameKey (StrV (name ch)) of
               Inl p \<Rightarrow> (Panicked p, w)
             | Inr currentCtx \<Rightarrow>
                 Then_loop (elems h (middlewares ch)) 0 (Some currentCtx) input w)
          else Then_loop (elems h (middlewares ch)) 0 ctx input w)"

subsection \<open>Well-formed stores\<close>

text \<open>
  Go's memory safety: every slice lies inside an allocated array, and so does the
  \<open>middlewares\<close> field of every chain in the store.
\<close>

definition valid_slice :: "'w heap \<Rightarrow> slice \<Rightarrow> bool" where
  "valid_slice h s \<longleftrightarrow> array s < length (arrays h) \<and> ofs s + len s \<le> length (arrays h ! array s)"

definition wf_heap :: "'w heap \<Rightarrow> bool" where
  "wf_heap h \<longleftrightarrow> list_all (\<lambda>ch. valid_slice h (middlewares ch)) (chains h)"

text \<open>The stage sequence and the name of the chain at an address, as the store has them.\<close>

definition stages :: "'w heap \<Rightarrow> addr \<Rightarrow> 'w MiddlewareFunc option list option" where
  "stages h c = map_option (\<lambda>ch. elems h (middlewares ch)) (deref h c)"

definition chain_name :: "'w heap \<Rightarrow> addr \<Rightarrow> string option" where
  "chain_name h c = map_option name (deref h c)"

text \<open>
  Every chain of the store \<open>h\<close> is in \<open>h'\<close> at the same address, with the same name and
  the same stage sequence.
\<close>

definition chains_preserved :: "'w heap \<Rightarrow> 'w heap \<Rightarrow> bool" where
  "chains_preserved h h' \<longleftrightarrow>
     (\<forall>c < length (chains h). chain_name h' c = chain_name h c \<and> stages h' c = stages h c)"

section \<open>Stages with an observable effect\<close>

text \<open>
  Stages as a test would write them, on a world that counts calls: one that passes its
  input on, one that reports an error, one that panics.
\<close>

definition counting_stage :: "nat MiddlewareFunc" where
  "counting_stage ctx input w = (Returned (Some ctx) input None, Suc w)"

definition failing_stage :: "string \<Rightarrow> nat MiddlewareFunc" where
  "failing_stage m ctx input w = (Returned (Some ctx) NilV (Some (errorString m)), Suc w)"

definition panicking_stage :: "string \<Rightarrow> nat MiddlewareFunc" where
  "panicking_stage m ctx input w = (Panicked (StrV m), Suc w)"

text \<open>Chains built from them on the empty store.\<close>

definition svc_empty :: "addr \<times> nat heap" where
  "svc_empty = NewNamedChain ''svc'' [] empty_heap"

definition svc_chain :: "addr \<times> nat heap" where
  "svc_chain = NewNamedChain ''svc''
     [Some counting_stage, Some (failing_stage ''bad''), Some counting_stage] empty_heap"

definition base_chain :: "addr \<times> nat heap" where
  "base_chain = NewNamedChain ''base'' [Some counting_stage] empty_heap"

text \<open>
  A chain with the recovery stage upstream of a stage that panics. Its logger adds 100
  to the call counter for every record, so a logged record shows in the world.
\<close>

definition guarded_chain :: "addr \<times> nat heap" where
  "guarded_chain = NewChain
     [Some (Recovery (\<lambda>r n. n + 100) ''stack'' None), Some (panicking_stage ''boom'')] empty_heap"

section \<open>The metadata store\<close>

lemma Value_latest:
  "Value ctx (StringKey key) = (case latest ctx key of None \<Rightarrow> NilV | Some v \<Rightarrow> v)"
  by (induction ctx) auto

lemma latest_None_iff: "latest ctx key = None \<longleftrightarrow> \<not> was_set ctx key"
  by (induction ctx) auto

text \<open>
  C6, as stated: \<open>GetMetadata\<close> reports found=false if and only if the key was never
  set; a key set with nil is reported as found. This fails: after
  \<open>AddMetadata(ctx, "validated", nil)\<close> the key is on the chain and \<open>GetMetadata\<close>
  reports (nil, false), because found is computed as \<open>value != nil\<close>.
\<close>

theorem GetMetadata_nil_not_found:
  "was_set (AddMetadata Background ''validated'' NilV) ''validated'' \<and>
   GetMetadata (AddMetadata Background ''validated'' NilV) ''validated'' = (NilV, False)"
  by (simp add: AddMetadata_def GetMetadata_def)

text \<open>
  C6, amended: \<open>GetMetadata(ctx, k)\<close> returns the value of the newest pair set for
  \<open>k\<close> on the chain, with found = (that value is not nil). So it reports
  found=false when \<open>k\<close> was never set and also when the newest value set for \<open>k\<close> is
  nil; when the newest value \<open>v\<close> set for \<open>k\<close> is not nil it reports found=true
  together with \<open>v\<close>.
\<close>

theorem GetMetadata_found:
  "GetMetadata ctx k = (case latest ctx k of None \<Rightarrow> (NilV, False) | Some v \<Rightarrow> (v, v \<noteq> NilV)) \<and>
   (latest ctx k = None) = (\<not> was_set ctx k) \<and>
   (\<not> snd (GetMetadata ctx k)) = (\<not> was_set ctx k \<or> latest ctx k = Some NilV) \<and>
   GetMetadata (AddMetadata ctx k v) k = (v, v \<noteq> NilV)"
proof -
  have "GetMetadata ctx k = (case latest ctx k of None \<Rightarrow> (NilV, False) | Some v \<Rightarrow> (v, v \<noteq> NilV))"
    by (simp add: GetMetadata_def Value_latest split: option.splits)
  moreover have "GetMetadata (AddMetadata ctx k v) k = (v, v \<noteq> NilV)"
    by (simp add: GetMetadata_def AddMetadata_def)
  ultimately show ?thesis
    using latest_None_iff [of ctx k] by (auto split: option.splits)
qed

theorem GetMetadata_found_witness:
  "GetMetadata (AddMetadata (AddMetadata Background ''user_id'' (StrV ''12345'')) ''validated'' (BoolV True))
     ''user_id'' = (StrV ''12345'', True) \<and>
   GetMetadata (AddMetadata Background ''validated'' (BoolV True)) ''user_id'' = (NilV, False)"
  using GetMetadata_found [of "AddMetadata (AddMetadata Background ''user_id'' (StrV ''12345'')) ''validated'' (BoolV True)" "''user_id''" NilV]
    GetMetadata_found [of "AddMetadata Background ''validated'' (BoolV True)" "''user_id''" NilV]
  by (simp add: AddMetadata_def)

text \<open>
  C9: the open string-keyed bag and the typed request-identifier accessors do not see
  each other's entries. \<open>AddMetadata(ctx, "request_id", v)\<close> leaves the result of
  \<open>GetRequestID\<close> as it was, and \<open>SetRequestID\<close> leaves the result of
  \<open>GetMetadata(ctx, "request_id")\<close> as it was: the key of the accessors has the
  private type \<open>metadataKey\<close>, which no \<open>string\<close> key equals.
\<close>

theorem request_id_namespaces_disjoint:
  "GetRequestID (AddMetadata ctx ''request_id'' v) = GetRequestID ctx \<and>
   GetMetadata (SetRequestID ctx r) ''request_id'' = GetMetadata ctx ''request_id'' \<and>
   requestKey \<noteq> StringKey ''request_id''"
  by (simp add: GetRequestID_def AddMetadata_def GetMetadata_def SetRequestID_def requestKey_def)

theorem request_id_namespaces_disjoint_witness:
  "GetRequestID (AddMetadata Background ''request_id'' (StrV ''req_abc123'')) = ([], False) \<and>
   GetMetadata (SetRequestID Background ''req_abc123'') ''request_id'' = (NilV, False)"
  using request_id_namespaces_disjoint [of Background "StrV ''req_abc123''" "''req_abc123''"]
  by (simp add: GetRequestID_def GetMetadata_def requestKey_def)

section \<open>The request-identifier stage\<close>

lemma high_nibble_bound: "unat (drop_bit 4 (v :: 8 word)) < 16"
proof -
  have "unat v < 2 ^ 8"
    using unsigned_less [of v] by simp
  then have "unat v div 2 ^ 4 < 16"
    by simp
  moreover have "unat (drop_bit 4 v) = drop_bit 4 (unat v)"
    by (rule unat_drop_bit_eq)
  moreover have "drop_bit 4 (unat v) = unat v div 2 ^ 4"
    by (rule drop_bit_eq_div)
  ultimately show ?thesis
    by simp
qed

lemma low_nibble_bound: "unat ((v :: 8 word) AND 0x0f) < 16"
proof -
  have "v AND 0x0f \<le> 0x0f"
    by (rule word_and_le1)
  then show ?thesis
    by (simp add: word_le_nat_alt)
qed

lemma length_hex_EncodeToString: "length (hex_EncodeToString bs) = 2 * length bs"
  by (induction bs) auto

lemma set_hex_EncodeToString: "set (hex_EncodeToString bs) \<subseteq> set hextable"
proof (induction bs)
  case Nil
  show ?case by simp
next
  case (Cons v bs)
  have "length hextable = 16"
    by (simp add: hextable_def)
  with Cons high_nibble_bound [of v] low_nibble_bound [of v] show ?case
    by simp
qed

lemma unat_high_nibble: "unat (drop_bit 4 (v :: 8 word)) = unat v div 16"
proof -
  have "unat (drop_bit 4 v) = drop_bit 4 (unat v)" by (rule unat_drop_bit_eq)
  also have "\<dots> = unat v div 2 ^ 4" by (rule drop_bit_eq_div)
  finally show ?thesis by simp
qed

lemma unat_low_nibble: "unat ((v :: 8 word) AND 0x0f) = unat v mod 16"
proof -
  have "(0x0f :: 8 word) = mask 4" by (simp add: mask_eq_exp_minus_1)
  then have "v AND 0x0f = take_bit 4 v" by (simp add: take_bit_eq_mask)
  then have "unat (v AND 0x0f) = take_bit 4 (unat v)" by (simp add: unsigned_take_bit_eq)
  also have "\<dots> = unat v mod 2 ^ 4" by (rule take_bit_eq_mod)
  finally show ?thesis by simp
qed

lemma nth_hex_EncodeToString:
  "j < length bs \<Longrightarrow>
   hex_EncodeToString bs ! (2 * j) = hextable ! (unat (bs ! j) div 16) \<and>
   hex_EncodeToString bs ! (2 * j + 1) = hextable ! (unat (bs ! j) mod 16)"
proof (induction bs arbitrary: j)
  case Nil
  then show ?case by simp
next
  case (Cons v bs)
  show ?case
  proof (cases j)
    case 0
    then show ?thesis by (simp add: unat_high_nibble unat_low_nibble)
  next
    case (Suc i)
    with Cons.prems have "i < length bs" by simp
    from Cons.IH [OF this] Suc show ?thesis by simp
  qed
qed

lemma hextable_inj: "i < 16 \<Longrightarrow> j < 16 \<Longrightarrow> hextable ! i = hextable ! j \<Longrightarrow> i = j"
proof -
  have "distinct hextable" by (simp add: hextable_def)
  moreover have "length hextable = 16" by (simp add: hextable_def)
  ultimately show "i < 16 \<Longrightarrow> j < 16 \<Longrightarrow> hextable ! i = hextable ! j \<Longrightarrow> i = j"
    by (simp add: nth_eq_iff_index_eq)
qed

lemma byte_from_nibbles:
  assumes "unat (v :: 8 word) div 16 = unat (u :: 8 word) div 16" and "unat v mod 16 = unat u mod 16"
  shows "v = u"
proof -
  have "unat v = 16 * (unat v div 16) + unat v mod 16" by simp
  also have "\<dots> = 16 * (unat u div 16) + unat u mod 16" using assms by simp
  also have "\<dots> = unat u" by simp
  finally show ?thesis by (simp add: word_unat_eq_iff)
qed

lemma hex_EncodeToString_inj: "hex_EncodeToString a = hex_EncodeToString b \<Longrightarrow> a = b"
proof (induction a arbitrary: b)
  case Nil
  then show ?case by (cases b) simp_all
next
  case (Cons v a)
  then obtain u b' where b: "b = u # b'" by (cases b) auto
  from Cons.prems b have hi: "hextable ! (unat v div 16) = hextable ! (unat u div 16)"
    and lo: "hextable ! (unat v mod 16) = hextable ! (unat u mod 16)"
    and rest: "hex_EncodeToString a = hex_EncodeToString b'"
    by (simp_all add: unat_high_nibble unat_low_nibble)
  have bv: "unat v < 256" "unat u < 256"
    using unsigned_less [of v] unsigned_less [of u] by simp_all
  then have "unat v div 16 < 16" "unat u div 16 < 16" by simp_all
  with hi have "unat v div 16 = unat u div 16" by (intro hextable_inj)
  moreover from lo have "unat v mod 16 = unat u mod 16" by (intro hextable_inj) simp_all
  ultimately have "v = u" by (rule byte_from_nibbles)
  with Cons.IH [OF rest] b show ?case by simp
qed

text \<open>
  C7: on a context with no request identifier the stage is a pass-through: it returns
  the context and the input unchanged with no error, and the generator is not called
  (the world is unchanged), so no identifier is assigned. The generator of \<open>RequestID\<close>
  takes no input: it reads the next 8 bytes of the random source and renders byte \<open>j\<close>
  as the two characters of \<open>0123456789abcdef\<close> at positions \<open>2j\<close> (the byte divided by
  16) and \<open>2j+1\<close> (the byte modulo 16), 16 characters in all. Two identifiers are
  equal exactly when the 8 bytes are; the source is left 8 bytes further on, so the
  next call renders the following 8 bytes.
\<close>

theorem RequestID_absent_passthrough:
  assumes "\<not> snd (GetRequestID ctx)"
  shows "RequestIDWithGenerator generator ctx x w = (Returned (Some ctx) x None, w) \<and>
         RequestID ctx x src = (Returned (Some ctx) x None, src) \<and>
         fst (generateRequestID src) = hex_EncodeToString (map src [0..<8]) \<and>
         length (fst (generateRequestID src)) = 16 \<and>
         set (fst (generateRequestID src)) \<subseteq> set ''0123456789abcdef'' \<and>
         (\<forall>j<8. fst (generateRequestID src) ! (2 * j) = ''0123456789abcdef'' ! (unat (src j) div 16) \<and>
                 fst (generateRequestID src) ! (2 * j + 1) = ''0123456789abcdef'' ! (unat (src j) mod 16)) \<and>
         (fst (generateRequestID src) = fst (generateRequestID src')) = (\<forall>j<8. src j = src' j) \<and>
         snd (generateRequestID src) = (\<lambda>i. src (i + 8)) \<and>
         fst (generateRequestID (snd (generateRequestID src))) = hex_EncodeToString (map src [8..<16])"
proof -
  have id: "fst (generateRequestID src) = hex_EncodeToString (map src [0..<8])" for src
    by (simp add: generateRequestID_def rand_Read_def)
  have adv: "snd (generateRequestID src) = (\<lambda>i. src (i + 8))"
    by (simp add: generateRequestID_def rand_Read_def)
  have len: "length (fst (generateRequestID src)) = 16"
    unfolding id by (simp add: length_hex_EncodeToString)
  have alph: "set (fst (generateRequestID src)) \<subseteq> set ''0123456789abcdef''"
    unfolding id using set_hex_EncodeToString [of "map src [0..<8]"]
    by (simp only: hextable_def)
  have digits: "\<forall>j<8. fst (generateRequestID src) ! (2 * j) = ''0123456789abcdef'' ! (unat (src j) div 16) \<and>
                 fst (generateRequestID src) ! (2 * j + 1) = ''0123456789abcdef'' ! (unat (src j) mod 16)"
  proof (intro allI impI)
    fix j :: nat
    assume j: "j < 8"
    then have "j < length (map src [0..<8])"
      by simp
    from nth_hex_EncodeToString [OF this] j show
      "fst (generateRequestID src) ! (2 * j) = ''0123456789abcdef'' ! (unat (src j) div 16) \<and>
       fst (generateRequestID src) ! (2 * j + 1) = ''0123456789abcdef'' ! (unat (src j) mod 16)"
      unfolding id hextable_def by simp
  qed
  have inj: "(fst (generateRequestID src) = fst (generateRequestID src')) = (\<forall>j<8. src j = src' j)"
  proof
    assume "fst (generateRequestID src) = fst (generateRequestID src')"
    then have "map src [0..<8] = map src' [0..<8]"
      unfolding id by (rule hex_EncodeToString_inj)
    then show "\<forall>j<8. src j = src' j"
      by (simp add: list_eq_iff_nth_eq)
  next
    assume "\<forall>j<8. src j = src' j"
    then have "map src [0..<8] = map src' [0..<8]"
      by simp
    then show "fst (generateRequestID src) = fst (generateRequestID src')"
      unfolding id by (rule arg_cong)
  qed
  have "map (\<lambda>i. src (i + 8)) [0..<8] = map src [8..<16]"
    by (simp add: upt_rec)
  then have second: "fst (generateRequestID (snd (generateRequestID src))) = hex_EncodeToString (map src [8..<16])"
    unfolding adv id by simp
  have pass: "RequestIDWithGenerator generator ctx x w = (Returned (Some ctx) x None, w)"
    "RequestID ctx x src = (Returned (Some ctx) x None, src)"
    using assms by (simp_all add: RequestIDWithGenerator_def RequestID_def)
  from pass id [of src] len alph digits inj adv second show ?thesis
    by blast
qed

theorem RequestID_absent_passthrough_witness:
  "\<not> snd (GetRequestID (AddMetadata Background ''request_id'' (StrV ''abc''))) \<and>
   RequestID (AddMetadata Background ''request_id'' (StrV ''abc'')) (IntV 7) (\<lambda>i. of_nat (37 * i + 250))
     = (Returned (Some (AddMetadata Background ''request_id'' (StrV ''abc''))) (IntV 7) None,
        \<lambda>i. of_nat (37 * i + 250)) \<and>
   fst (generateRequestID (\<lambda>i. of_nat (37 * i + 250))) = ''fa1f44698eb3d8fd'' \<and>
   fst (generateRequestID (snd (generateRequestID (\<lambda>i. of_nat (37 * i + 250))))) = ''22476c91b6db0025''"
proof -
  have h: "\<not> snd (GetRequestID (AddMetadata Background ''request_id'' (StrV ''abc'')))"
    by (simp add: GetRequestID_def AddMetadata_def requestKey_def)
  have e1: "hex_EncodeToString (map (\<lambda>i. of_nat (37 * i + 250)) [0..<8]) = ''fa1f44698eb3d8fd''"
    by (simp add: upt_rec hextable_def)
  have e2: "hex_EncodeToString (map (\<lambda>i. of_nat (37 * i + 250)) [8..<16]) = ''22476c91b6db0025''"
    by (simp add: upt_rec hextable_def)
  from RequestID_absent_passthrough [OF h, of "generateRequestID" "IntV 7" "\<lambda>i. of_nat (37 * i + 250)" "\<lambda>i. of_nat (37 * i + 250)" "\<lambda>i. 0"]
  have "RequestID (AddMetadata Background ''request_id'' (StrV ''abc'')) (IntV 7) (\<lambda>i. of_nat (37 * i + 250))
     = (Returned (Some (AddMetadata Background ''request_id'' (StrV ''abc''))) (IntV 7) None,
        \<lambda>i. of_nat (37 * i + 250))"
    and "fst (generateRequestID (\<lambda>i. of_nat (37 * i + 250))) = hex_EncodeToString (map (\<lambda>i. of_nat (37 * i + 250)) [0..<8])"
    and "fst (generateRequestID (snd (generateRequestID (\<lambda>i. of_nat (37 * i + 250))))) = hex_EncodeToString (map (\<lambda>i. of_nat (37 * i + 250)) [8..<16])"
    by blast+
  with h e1 e2 show ?thesis
    by simp
qed

text \<open>
  C8: on a context that already carries a request identifier the stage calls the
  generator once and returns the context extended with the generated identifier, which
  is what \<open>GetRequestID\<close> then reports; the input is returned unchanged with no error.
\<close>

theorem RequestID_present_replaced:
  assumes "snd (GetRequestID ctx)"
  shows "RequestIDWithGenerator generator ctx x w =
           (Returned (Some (SetRequestID ctx (fst (generator w)))) x None, snd (generator w)) \<and>
         GetRequestID (SetRequestID ctx (fst (generator w))) = (fst (generator w), True)"
  using assms
  by (simp add: RequestIDWithGenerator_def GetRequestID_def SetRequestID_def split: prod.splits)

theorem RequestID_present_replaced_witness:
  "snd (GetRequestID (SetRequestID Background ''old'')) \<and>
   RequestIDWithGenerator (\<lambda>n. (''new'', Suc n)) (SetRequestID Background ''old'') (IntV 7) (0::nat) =
     (Returned (Some (SetRequestID (SetRequestID Background ''old'') ''new'')) (IntV 7) None, 1) \<and>
   GetRequestID (SetRequestID (SetRequestID Background ''old'') ''new'') = (''new'', True)"
proof -
  have h: "snd (GetRequestID (SetRequestID Background ''old''))"
    by (simp add: GetRequestID_def SetRequestID_def)
  show ?thesis
    using h RequestID_present_replaced [OF h, of "\<lambda>n. (''new'', Suc n)" "IntV 7" "0::nat"]
    by simp
qed

section \<open>The token bucket\<close>

lemma RateLimit_stage_consume:
  assumes "time_Sub now (lastRefill b) < sint (refillRate b)" and "0 < tokens b"
  shows "RateLimit_stage now ctx x b =
           (Returned (Some (AddMetadata ctx ''rate_limit_remaining'' (IntV (tokens b - 1)))) x None,
            b\<lparr>tokens := tokens b - 1\<rparr>)"
  using assms by (simp add: RateLimit_stage_def Let_def)

lemma RateLimit_stage_exhausted:
  assumes "time_Sub now (lastRefill b) < sint (refillRate b)" and "tokens b \<le> 0"
  shows "RateLimit_stage now ctx x b =
           (Returned (Some ctx) NilV (Some (errorString ''rate limit exceeded'')), b)"
  using assms by (simp add: RateLimit_stage_def Let_def)

lemma RateLimit_stage_refill:
  assumes "sint (refillRate b) \<le> time_Sub now (lastRefill b)" and "0 < capacity b"
  shows "RateLimit_stage now ctx x b =
           (Returned (Some (AddMetadata ctx ''rate_limit_remaining'' (IntV (capacity b - 1)))) x None,
            b\<lparr>tokens := capacity b - 1, lastRefill := now\<rparr>)"
  using assms by (simp add: RateLimit_stage_def Let_def)

lemma invoke_seq_consume:
  assumes "int (length calls) \<le> tokens b"
    and "\<forall>(now, ctx, x) \<in> set calls. time_Sub now (lastRefill b) < sint (refillRate b)"
    and "tokens b + int k = T"
  shows "invoke_seq calls b =
           (map (\<lambda>(i, now, ctx, x).
                   Returned (Some (AddMetadata ctx ''rate_limit_remaining'' (IntV (T - 1 - int i)))) x None)
                (enumerate k calls),
            b\<lparr>tokens := tokens b - int (length calls)\<rparr>)"
  using assms
proof (induction calls arbitrary: b k)
  case Nil
  then show ?case by simp
next
  case (Cons c calls)
  obtain now ctx x where c: "c = (now, ctx, x)" by (cases c) auto
  let ?b = "b\<lparr>tokens := tokens b - 1\<rparr>"
  from Cons.prems c have step: "RateLimit_stage now ctx x b =
      (Returned (Some (AddMetadata ctx ''rate_limit_remaining'' (IntV (tokens b - 1)))) x None, ?b)"
    by (intro RateLimit_stage_consume) auto
  have rest: "invoke_seq calls ?b =
           (map (\<lambda>(i, now, ctx, x).
                   Returned (Some (AddMetadata ctx ''rate_limit_remaining'' (IntV (T - 1 - int i)))) x None)
                (enumerate (Suc k) calls),
            ?b\<lparr>tokens := tokens ?b - int (length calls)\<rparr>)"
    using Cons.prems by (intro Cons.IH) auto
  have eq: "T - 1 - int k = tokens b - 1"
    using Cons.prems by simp
  have len: "tokens b - 1 - int (length calls) = tokens b - int (length (c # calls))"
    by simp
  show ?case
    unfolding c invoke_seq.simps step rest enumerate_simps list.map prod.case Let_def eq
    using len by simp
qed

text \<open>
  C4: a stage instance with capacity \<open>C \<ge> 1\<close> and refill interval \<open>D\<close>, created at
  \<open>t0\<close> and invoked sequentially. \<open>C\<close> invocations at instants at which \<open>D\<close> has not
  elapsed since \<open>t0\<close> all succeed and leave the bucket empty; the one with index \<open>i\<close>
  returns its context extended with the pair \<open>rate_limit_remaining\<close>, \<open>C - 1 - i\<close>, so
  that \<open>GetMetadata\<close> on the returned context finds \<open>C - 1 - i\<close>. A further invocation
  before \<open>D\<close> has elapsed fails with "rate limit exceeded", returns nil as output and
  leaves the bucket as it was. An invocation at which at least \<open>D\<close> has elapsed since the
  last refill resets the bucket to \<open>C\<close>, whatever the count was, and succeeds;
  \<open>GetMetadata\<close> on the context it returns finds \<open>C - 1\<close>.
\<close>

theorem RateLimit_token_bucket:
  assumes "1 \<le> C" and "length calls = nat C"
    and "\<forall>(now, ctx, x) \<in> set calls. time_Sub now t0 < sint D"
    and "time_Sub now1 t0 < sint D"
    and "sint D \<le> time_Sub now2 t0"
  shows "invoke_seq calls (RateLimit C D t0) =
           (map (\<lambda>(i, now, ctx, x).
                   Returned (Some (WithValue ctx (StringKey ''rate_limit_remaining'')
                                     (IntV (C - 1 - int i)))) x None)
                (enumerate 0 calls),
            \<lparr>tokens = 0, capacity = C, refillRate = D, lastRefill = t0\<rparr>) \<and>
         (\<forall>i<length calls.
            case fst (invoke_seq calls (RateLimit C D t0)) ! i of
              Returned (Some ctx') out None \<Rightarrow>
                GetMetadata ctx' ''rate_limit_remaining'' = (IntV (C - 1 - int i), True)
            | _ \<Rightarrow> False) \<and>
         RateLimit_stage now1 ctx1 x1 \<lparr>tokens = 0, capacity = C, refillRate = D, lastRefill = t0\<rparr> =
           (Returned (Some ctx1) NilV (Some (errorString ''rate limit exceeded'')),
            \<lparr>tokens = 0, capacity = C, refillRate = D, lastRefill = t0\<rparr>) \<and>
         RateLimit_stage now2 ctx2 x2 \<lparr>tokens = n, capacity = C, refillRate = D, lastRefill = t0\<rparr> =
           (Returned (Some (WithValue ctx2 (StringKey ''rate_limit_remaining'') (IntV (C - 1)))) x2 None,
            \<lparr>tokens = C - 1, capacity = C, refillRate = D, lastRefill = now2\<rparr>) \<and>
         (case fst (RateLimit_stage now2 ctx2 x2
                      \<lparr>tokens = n, capacity = C, refillRate = D, lastRefill = t0\<rparr>) of
            Returned (Some ctx') out None \<Rightarrow>
              GetMetadata ctx' ''rate_limit_remaining'' = (IntV (C - 1), True)
          | _ \<Rightarrow> False)"
proof -
  let ?b = "RateLimit C D t0"
  let ?f = "\<lambda>(i, now, ctx, x).
              Returned (Some (WithValue ctx (StringKey ''rate_limit_remaining'')
                                (IntV (C - 1 - int i)))) x None"
  have "invoke_seq calls ?b =
           (map (\<lambda>(i, now, ctx, x).
                   Returned (Some (AddMetadata ctx ''rate_limit_remaining'' (IntV (C - 1 - int i)))) x None)
                (enumerate 0 calls),
            ?b\<lparr>tokens := tokens ?b - int (length calls)\<rparr>)"
    using assms(1-3) by (intro invoke_seq_consume) (auto simp: RateLimit_def)
  moreover have "?b\<lparr>tokens := tokens ?b - int (length calls)\<rparr> =
      \<lparr>tokens = 0, capacity = C, refillRate = D, lastRefill = t0\<rparr>"
    using assms(1,2) by (simp add: RateLimit_def)
  ultimately have run: "invoke_seq calls ?b =
      (map ?f (enumerate 0 calls), \<lparr>tokens = 0, capacity = C, refillRate = D, lastRefill = t0\<rparr>)"
    by (simp add: AddMetadata_def)
  have seen: "\<forall>i<length calls.
            case fst (invoke_seq calls ?b) ! i of
              Returned (Some ctx') out None \<Rightarrow>
                GetMetadata ctx' ''rate_limit_remaining'' = (IntV (C - 1 - int i), True)
            | _ \<Rightarrow> False"
  proof (intro allI impI)
    fix i
    assume i: "i < length calls"
    obtain now ctx x where c: "calls ! i = (now, ctx, x)"
      by (cases "calls ! i") auto
    from i have "fst (invoke_seq calls ?b) ! i = ?f (i, calls ! i)"
      unfolding run by (simp add: nth_enumerate_eq)
    then show "case fst (invoke_seq calls ?b) ! i of
              Returned (Some ctx') out None \<Rightarrow>
                GetMetadata ctx' ''rate_limit_remaining'' = (IntV (C - 1 - int i), True)
            | _ \<Rightarrow> False"
      by (simp add: c GetMetadata_def)
  qed
  have empty: "RateLimit_stage now1 ctx1 x1 \<lparr>tokens = 0, capacity = C, refillRate = D, lastRefill = t0\<rparr> =
           (Returned (Some ctx1) NilV (Some (errorString ''rate limit exceeded'')),
            \<lparr>tokens = 0, capacity = C, refillRate = D, lastRefill = t0\<rparr>)"
    using assms(4) by (intro RateLimit_stage_exhausted) auto
  have refill: "RateLimit_stage now2 ctx2 x2 \<lparr>tokens = n, capacity = C, refillRate = D, lastRefill = t0\<rparr> =
           (Returned (Some (WithValue ctx2 (StringKey ''rate_limit_remaining'') (IntV (C - 1)))) x2 None,
            \<lparr>tokens = C - 1, capacity = C, refillRate = D, lastRefill = now2\<rparr>)"
    using assms(1,5) RateLimit_stage_refill [of "\<lparr>tokens = n, capacity = C, refillRate = D, lastRefill = t0\<rparr>" now2 ctx2 x2]
    by (simp add: AddMetadata_def)
  have "case fst (RateLimit_stage now2 ctx2 x2
                      \<lparr>tokens = n, capacity = C, refillRate = D, lastRefill = t0\<rparr>) of
            Returned (Some ctx') out None \<Rightarrow>
              GetMetadata ctx' ''rate_limit_remaining'' = (IntV (C - 1), True)
          | _ \<Rightarrow> False"
    unfolding refill by (simp add: GetMetadata_def)
  with run seen empty refill show ?thesis
    by blast
qed

theorem RateLimit_token_bucket_witness:
  "invoke_seq [(10, Background, IntV 1), (20, Background, IntV 2)] (RateLimit 2 1000000000 0) =
     ([Returned (Some (WithValue Background (StringKey ''rate_limit_remaining'') (IntV 1))) (IntV 1) None,
       Returned (Some (WithValue Background (StringKey ''rate_limit_remaining'') (IntV 0))) (IntV 2) None],
      \<lparr>tokens = 0, capacity = 2, refillRate = 1000000000, lastRefill = 0\<rparr>) \<and>
   GetMetadata (WithValue Background (StringKey ''rate_limit_remaining'') (IntV 1))
     ''rate_limit_remaining'' = (IntV 1, True) \<and>
   GetMetadata (WithValue Background (StringKey ''rate_limit_remaining'') (IntV 0))
     ''rate_limit_remaining'' = (IntV 0, True) \<and>
   RateLimit_stage 30 Background (IntV 3) \<lparr>tokens = 0, capacity = 2, refillRate = 1000000000, lastRefill = 0\<rparr> =
     (Returned (Some Background) NilV (Some (errorString ''rate limit exceeded'')),
      \<lparr>tokens = 0, capacity = 2, refillRate = 1000000000, lastRefill = 0\<rparr>) \<and>
   RateLimit_stage 1000000030 Background (IntV 4) \<lparr>tokens = 0, capacity = 2, refillRate = 1000000000, lastRefill = 0\<rparr> =
     (Returned (Some (WithValue Background (StringKey ''rate_limit_remaining'') (IntV 1))) (IntV 4) None,
      \<lparr>tokens = 1, capacity = 2, refillRate = 1000000000, lastRefill = 1000000030\<rparr>)"
proof -
  have h1: "(1::int) \<le> 2" by simp
  have h2: "length [(10::int, Background, IntV 1), (20, Background, IntV 2)] = nat 2" by simp
  have h3: "\<forall>(now, ctx, x) \<in> set [(10::int, Background, IntV 1), (20, Background, IntV 2)].
              time_Sub now 0 < sint (1000000000 :: 64 word)"
    by (simp add: time_Sub_def maxDuration_def minDuration_def)
  have h4: "time_Sub 30 0 < sint (1000000000 :: 64 word)"
    by (simp add: time_Sub_def maxDuration_def minDuration_def)
  have h5: "sint (1000000000 :: 64 word) \<le> time_Sub 1000000030 0"
    by (simp add: time_Sub_def maxDuration_def minDuration_def)
  note t = RateLimit_token_bucket [OF h1 h2 h3 h4 h5, of Background "IntV 3" Background "IntV 4" 0]
  note t_run = t [THEN conjunct1]
  note t_seen = t [THEN conjunct2, THEN conjunct1]
  note t_rest = t [THEN conjunct2, THEN conjunct2]
  have run: "invoke_seq [(10, Background, IntV 1), (20, Background, IntV 2)] (RateLimit 2 1000000000 0) =
     ([Returned (Some (WithValue Background (StringKey ''rate_limit_remaining'') (IntV 1))) (IntV 1) None,
       Returned (Some (WithValue Background (StringKey ''rate_limit_remaining'') (IntV 0))) (IntV 2) None],
      \<lparr>tokens = 0, capacity = 2, refillRate = 1000000000, lastRefill = 0\<rparr>)"
    using t_run by (simp add: enumerate_eq_zip upt_rec)
  have g1: "GetMetadata (WithValue Background (StringKey ''rate_limit_remaining'') (IntV 1))
     ''rate_limit_remaining'' = (IntV 1, True)"
    using t_seen [rule_format, of 0] unfolding run by simp
  have g0: "GetMetadata (WithValue Background (StringKey ''rate_limit_remaining'') (IntV 0))
     ''rate_limit_remaining'' = (IntV 0, True)"
    using t_seen [rule_format, of 1] unfolding run by simp
  from run g1 g0 t_rest show ?thesis
    by simp
qed

section \<open>Chains in the store\<close>

lemma length_elems: "valid_slice h s \<Longrightarrow> length (elems h s) = len s"
  by (auto simp: valid_slice_def elems_def)

lemma Append_eq:
  assumes "deref h c = Some ch" and "valid_slice h (middlewares ch)"
  shows "Append c mws h =
    (Inr (length (chains h)),
     \<lparr>arrays = arrays h @ [elems h (middlewares ch) @ mws],
      chains = chains h @ [\<lparr>middlewares = \<lparr>array = length (arrays h), ofs = 0,
                                              len = len (middlewares ch) + length mws\<rparr>,
                             name = name ch\<rparr>]\<rparr>)"
proof -
  have l: "length (elems h (middlewares ch)) = len (middlewares ch)"
    using assms(2) by (rule length_elems)
  have e: "elems (h\<lparr>arrays := arrays h @ [replicate (len (middlewares ch) + length mws) None]\<rparr>) (middlewares ch)
      = elems h (middlewares ch)"
    using assms(2) by (simp add: elems_def valid_slice_def nth_append)
  show ?thesis
    using assms(1) l
    by (simp add: Append_def make_slice_def e copy_slice_def slice_from_def new_Chain_def Let_def)
qed

lemma Prepend_eq:
  assumes "deref h c = Some ch" and "valid_slice h (middlewares ch)"
  shows "Prepend c mws h =
    (Inr (length (chains h)),
     \<lparr>arrays = arrays h @ [mws @ elems h (middlewares ch)],
      chains = chains h @ [\<lparr>middlewares = \<lparr>array = length (arrays h), ofs = 0,
                                              len = length mws + len (middlewares ch)\<rparr>,
                             name = name ch\<rparr>]\<rparr>)"
proof -
  have l: "length (elems h (middlewares ch)) = len (middlewares ch)"
    using assms(2) by (rule length_elems)
  have e: "\<And>a. elems (h\<lparr>arrays := arrays h @ [a]\<rparr>) (middlewares ch) = elems h (middlewares ch)"
    using assms(2) by (simp add: elems_def valid_slice_def nth_append)
  have e': "\<And>a. elems \<lparr>arrays = arrays h @ [a], chains = chains h\<rparr> (middlewares ch) = elems h (middlewares ch)"
    using assms(2) by (simp add: elems_def valid_slice_def nth_append)
  show ?thesis
    using assms(1) l
    by (simp add: Prepend_def make_slice_def copy_slice_def slice_from_def new_Chain_def Let_def e e')
qed

lemma Clone_eq:
  assumes "deref h c = Some ch" and "valid_slice h (middlewares ch)"
  shows "Clone c h =
    (Inr (length (chains h)),
     \<lparr>arrays = arrays h @ [elems h (middlewares ch)],
      chains = chains h @ [\<lparr>middlewares = \<lparr>array = length (arrays h), ofs = 0,
                                              len = len (middlewares ch)\<rparr>,
                             name = name ch\<rparr>]\<rparr>)"
proof -
  have l: "length (elems h (middlewares ch)) = len (middlewares ch)"
    using assms(2) by (rule length_elems)
  have e: "\<And>a. elems (h\<lparr>arrays := arrays h @ [a]\<rparr>) (middlewares ch) = elems h (middlewares ch)"
    using assms(2) by (simp add: elems_def valid_slice_def nth_append)
  show ?thesis
    using assms(1) l
    by (simp add: Clone_def make_slice_def copy_slice_def new_Chain_def Let_def e)
qed

lemma NewNamedChain_eq:
  "NewNamedChain nm mws h =
    (length (chains h),
     \<lparr>arrays = arrays h @ [mws],
      chains = chains h @ [\<lparr>middlewares = \<lparr>array = length (arrays h), ofs = 0, len = length mws\<rparr>,
                             name = nm\<rparr>]\<rparr>)"
  by (simp add: NewNamedChain_def append_to_empty_def new_Chain_def)

lemma NewChain_eq:
  "NewChain mws h =
    (length (chains h),
     \<lparr>arrays = arrays h @ [mws],
      chains = chains h @ [\<lparr>middlewares = \<lparr>array = length (arrays h), ofs = 0, len = length mws\<rparr>,
                             name = []\<rparr>]\<rparr>)"
  by (simp add: NewChain_def append_to_empty_def new_Chain_def)

lemma wf_heap_deref: "wf_heap h \<Longrightarrow> deref h c = Some ch \<Longrightarrow> valid_slice h (middlewares ch)"
  by (auto simp: wf_heap_def deref_def list_all_length split: if_splits)

lemma deref_extend:
  "c < length (chains h) \<Longrightarrow> deref \<lparr>arrays = as, chains = chains h @ cs\<rparr> c = deref h c"
  by (simp add: deref_def nth_append)

lemma deref_new: "deref \<lparr>arrays = as, chains = chains h @ [ch]\<rparr> (length (chains h)) = Some ch"
  by (simp add: deref_def)

lemma elems_extend:
  "valid_slice h s \<Longrightarrow> elems \<lparr>arrays = arrays h @ as, chains = cs\<rparr> s = elems h s"
  by (simp add: elems_def valid_slice_def nth_append)

lemma elems_new:
  "elems \<lparr>arrays = arrays h @ [a], chains = cs\<rparr> \<lparr>array = length (arrays h), ofs = 0, len = length a\<rparr> = a"
  by (simp add: elems_def)

lemma stages_extend:
  assumes "wf_heap h" and "c < length (chains h)"
  shows "stages \<lparr>arrays = arrays h @ as, chains = chains h @ cs\<rparr> c = stages h c"
proof -
  from assms(2) obtain ch where ch: "deref h c = Some ch"
    by (simp add: deref_def)
  with assms(1) have "valid_slice h (middlewares ch)"
    by (rule wf_heap_deref)
  then show ?thesis
    using ch assms(2) by (simp add: stages_def deref_extend elems_extend)
qed

lemma chain_name_extend:
  "c < length (chains h) \<Longrightarrow> chain_name \<lparr>arrays = as, chains = chains h @ cs\<rparr> c = chain_name h c"
  by (simp add: chain_name_def deref_extend)

lemma chains_preserved_extend:
  "wf_heap h \<Longrightarrow> chains_preserved h \<lparr>arrays = arrays h @ as, chains = chains h @ cs\<rparr>"
  by (simp add: chains_preserved_def stages_extend chain_name_extend)

lemma Then_extend:
  assumes "wf_heap h" and "c < length (chains h)"
  shows "Then c ctx x \<lparr>arrays = arrays h @ as, chains = chains h @ cs\<rparr> w = Then c ctx x h w"
proof -
  from assms(2) obtain ch where ch: "deref h c = Some ch"
    by (simp add: deref_def)
  with assms(1) have "valid_slice h (middlewares ch)"
    by (rule wf_heap_deref)
  then show ?thesis
    using ch assms(2) by (simp add: Then_def deref_extend elems_extend split: sum.splits)
qed

lemma wf_heap_extend:
  assumes "wf_heap h" and "length a = n"
  shows "wf_heap \<lparr>arrays = arrays h @ [a],
           chains = chains h @ [\<lparr>middlewares = \<lparr>array = length (arrays h), ofs = 0, len = n\<rparr>, name = nm\<rparr>]\<rparr>"
  using assms by (auto simp: wf_heap_def valid_slice_def list_all_iff nth_append)

lemma wf_heap_empty: "wf_heap empty_heap"
  by (simp add: wf_heap_def empty_heap_def)

lemma wf_heap_constructors:
  assumes "wf_heap h"
  shows "wf_heap (snd (NewChain mws h))" and "wf_heap (snd (NewNamedChain nm mws h))"
  using assms by (simp_all add: NewChain_eq NewNamedChain_eq wf_heap_extend)

lemma wf_heap_Clone:
  assumes "wf_heap h"
  shows "wf_heap (snd (Clone c h))"
proof (cases "deref h c")
  case None
  with assms show ?thesis
    by (simp add: Clone_def)
next
  case (Some ch)
  with assms have v: "valid_slice h (middlewares ch)"
    by (simp add: wf_heap_deref)
  show ?thesis
    using assms length_elems [OF v] by (simp add: Clone_eq [OF Some v] wf_heap_extend)
qed

lemma Then_loop_append:
  "Then_loop pre i c x w = (Returned c1 o1 None, w1) \<Longrightarrow>
   Then_loop (pre @ post) i c x w = Then_loop post (i + length pre) c1 o1 w1"
proof (induction pre arbitrary: i c x w)
  case Nil
  then show ?case by simp
next
  case (Cons mw pre)
  then show ?case
    by (auto split: sum.splits option.splits prod.splits outcome.splits)
qed

lemma Then_loop_fail:
  "f (WithValue ck middlewareIndexKey (IntV (int i))) x w = (Returned c' out' (Some e), w') \<Longrightarrow>
   Then_loop (Some f # post) i (Some ck) x w = (Returned c' NilV (Some (middleware_failed i e)), w')"
  by (simp add: context_WithValue_def)

lemma stages_new:
  "length a = n \<Longrightarrow>
   stages \<lparr>arrays = arrays h @ [a],
           chains = chains h @ [\<lparr>middlewares = \<lparr>array = length (arrays h), ofs = 0, len = n\<rparr>, name = nm\<rparr>]\<rparr>
     (length (chains h)) = Some a"
  by (simp add: stages_def deref_def elems_def)

lemma Name_new:
  "Name (length (chains h)) \<lparr>arrays = as, chains = chains h @ [\<lparr>middlewares = s, name = nm\<rparr>]\<rparr> = Inr nm"
  by (simp add: Name_def deref_def)

section \<open>Execution of a chain\<close>

text \<open>
  C2: a chain with zero stages (\<open>Len\<close> is 0), named or not, returns the context and
  the input it was given with no error, calls nothing and leaves the world as it is,
  for every context (the nil context included) and every input.
\<close>

theorem Then_empty_chain:
  assumes "Len c h = Inr 0"
  shows "Then c ctx x h w = (Returned ctx x None, w)"
proof -
  from assms obtain ch where "deref h c = Some ch" and "len (middlewares ch) = 0"
    by (auto simp: Len_def split: option.splits)
  then show ?thesis
    by (simp add: Then_def)
qed

theorem Then_empty_chain_witness:
  "Len (fst svc_empty) (snd svc_empty) = Inr 0 \<and>
   Then (fst svc_empty) (Some Background) (IntV 5) (snd svc_empty) 0 =
     (Returned (Some Background) (IntV 5) None, 0)"
proof -
  have h: "Len (fst svc_empty) (snd svc_empty) = Inr 0"
    by (simp add: svc_empty_def NewNamedChain_eq empty_heap_def Len_def deref_def)
  show ?thesis
    using h Then_empty_chain [OF h, of "Some Background" "IntV 5" "0::nat"] by simp
qed

text \<open>
  C1: let stage \<open>k\<close> (0-based) be the first to return an error: the loop over the
  stages before \<open>k\<close>, started on the entry context (the caller's context, extended with
  the chain name when the chain has one), ends without error in \<open>(ctxk, outk, wk)\<close>, and
  stage \<open>k\<close>, called on \<open>ctxk\<close> extended with index \<open>k\<close>, returns \<open>ctx'\<close> and the error
  \<open>err\<close>. Then \<open>Then\<close> returns \<open>ctx'\<close>, the nil output and \<open>err\<close> wrapped with the
  position \<open>k\<close> ("middleware k failed: ..."), in the world stage \<open>k\<close> left. The stages
  after \<open>k\<close> are not called: whatever stands in their place, the result and the world
  are the same.
\<close>

theorem Then_stops_at_first_error:
  assumes wf: "wf_heap h"
    and st: "stages h c = Some mws"
    and nm: "chain_name h c = Some nm"
    and k: "k < length mws"
    and entry: "ctx0 = (if nm \<noteq> [] then WithValue ctx chainNameKey (StrV nm) else ctx)"
    and pre: "Then_loop (take k mws) 0 (Some ctx0) x w = (Returned (Some ctxk) outk None, wk)"
    and fk: "mws ! k = Some f"
    and fail: "f (WithValue ctxk middlewareIndexKey (IntV (int k))) outk wk = (Returned ctx' out' (Some err), w')"
  shows "Then c (Some ctx) x h w = (Returned ctx' NilV (Some (middleware_failed k err)), w') \<and>
         (\<forall>later. Then_loop (take (Suc k) mws @ later) 0 (Some ctx0) x w =
                    (Returned ctx' NilV (Some (middleware_failed k err)), w')) \<and>
         Error (middleware_failed k err) = ''middleware '' @ itoa k @ '' failed: '' @ Error err \<and>
         Unwrap (middleware_failed k err) = Some err"
proof -
  have run: "Then_loop (take (Suc k) mws @ later) 0 (Some ctx0) x w =
               (Returned ctx' NilV (Some (middleware_failed k err)), w')" for later
  proof -
    have "take (Suc k) mws @ later = take k mws @ (Some f # later)"
      using k fk by (simp add: take_Suc_conv_app_nth)
    then have "Then_loop (take (Suc k) mws @ later) 0 (Some ctx0) x w =
               Then_loop (Some f # later) (0 + length (take k mws)) (Some ctxk) outk wk"
      using Then_loop_append [OF pre] by simp
    also have "length (take k mws) = k"
      using k by simp
    finally show ?thesis
      using Then_loop_fail [of f ctxk k outk wk ctx' out' err w' later] fail by simp
  qed
  from st obtain ch where ch: "deref h c = Some ch" and el: "elems h (middlewares ch) = mws"
    by (auto simp: stages_def)
  from wf ch have "valid_slice h (middlewares ch)"
    by (rule wf_heap_deref)
  then have "len (middlewares ch) = length mws"
    using el length_elems by metis
  with k have pos: "len (middlewares ch) \<noteq> 0"
    by auto
  from nm ch have n: "name ch = nm"
    by (simp add: chain_name_def)
  have "mws = take (Suc k) mws @ drop (Suc k) mws"
    by simp
  then have "Then_loop mws 0 (Some ctx0) x w = (Returned ctx' NilV (Some (middleware_failed k err)), w')"
    using run [of "drop (Suc k) mws"] by simp
  then have "Then c (Some ctx) x h w = (Returned ctx' NilV (Some (middleware_failed k err)), w')"
    using ch el pos n entry by (cases "nm = []") (simp_all add: Then_def context_WithValue_def)
  then show ?thesis
    using run by (simp add: middleware_failed_def)
qed

theorem Then_stops_at_first_error_witness:
  "Then (fst svc_chain) (Some Background) (IntV 5) (snd svc_chain) 0 =
     (Returned (Some (WithValue (WithValue (WithValue Background chainNameKey (StrV ''svc''))
                                   middlewareIndexKey (IntV 0)) middlewareIndexKey (IntV 1)))
        NilV (Some (wrapError ''middleware 1 failed: bad'' (errorString ''bad''))), 2)"
proof -
  let ?mws = "[Some counting_stage, Some (failing_stage ''bad''), Some counting_stage]"
  let ?c0 = "WithValue Background chainNameKey (StrV ''svc'')"
  let ?c1 = "WithValue ?c0 middlewareIndexKey (IntV 0)"
  have h: "snd svc_chain = \<lparr>arrays = [?mws],
             chains = [\<lparr>middlewares = \<lparr>array = 0, ofs = 0, len = 3\<rparr>, name = ''svc''\<rparr>]\<rparr>"
    and c: "fst svc_chain = 0"
    by (simp_all add: svc_chain_def NewNamedChain_eq empty_heap_def)
  have wf: "wf_heap (snd svc_chain)"
    unfolding h by (simp add: wf_heap_def valid_slice_def)
  have st: "stages (snd svc_chain) (fst svc_chain) = Some ?mws"
    unfolding h c by (simp add: stages_def deref_def elems_def)
  have nm: "chain_name (snd svc_chain) (fst svc_chain) = Some ''svc''"
    unfolding h c by (simp add: chain_name_def deref_def)
  have k: "1 < length ?mws"
    by simp
  have entry: "?c0 = (if ''svc'' \<noteq> [] then WithValue Background chainNameKey (StrV ''svc'') else Background)"
    by simp
  have pre: "Then_loop (take 1 ?mws) 0 (Some ?c0) (IntV 5) 0 = (Returned (Some ?c1) (IntV 5) None, 1)"
    by (simp add: context_WithValue_def counting_stage_def)
  have fk: "?mws ! 1 = Some (failing_stage ''bad'')"
    by simp
  have fail: "failing_stage ''bad'' (WithValue ?c1 middlewareIndexKey (IntV (int 1))) (IntV 5) 1 =
      (Returned (Some (WithValue ?c1 middlewareIndexKey (IntV 1))) NilV (Some (errorString ''bad'')), 2)"
    by (simp add: failing_stage_def)
  have "middleware_failed 1 (errorString ''bad'') = wrapError ''middleware 1 failed: bad'' (errorString ''bad'')"
    by (simp add: middleware_failed_def itoa.simps digit_def)
  then show ?thesis
    using Then_stops_at_first_error [OF wf st nm k entry pre fk fail] by simp
qed

text \<open>
  The stage of \<open>Recovery\<close> returns its context and input unchanged and logs nothing:
  its deferred function runs when the stage itself returns, before any later stage is
  called.
\<close>

lemma Recovery_passthrough: "Recovery d s lg ctx x w = (Returned (Some ctx) x None, w)"
  by (simp add: Recovery_def defer_recover_def Recovery_deferred_def)

text \<open>
  C3 says that a panic of a stage downstream of \<open>Recovery\<close> comes back from \<open>Then\<close>
  as an ordinary failure carrying the fault. On the chain [Recovery, panicking stage]
  the code does otherwise: \<open>Then\<close> ends in the panic of the second stage, and no record
  is logged (the counter is 1, the call of the panicking stage alone).
\<close>

theorem Recovery_panic_not_contained:
  "Then (fst guarded_chain) (Some Background) (IntV 5) (snd guarded_chain) 0 = (Panicked (StrV ''boom''), 1)"
  by (simp add: guarded_chain_def NewChain_eq empty_heap_def Then_def deref_def elems_def
        context_WithValue_def Recovery_passthrough panicking_stage_def)

section \<open>Extension of a chain\<close>

text \<open>
  C5: in a well-formed store, \<open>P.Append(E)\<close> returns a new chain whose stage sequence
  is that of \<open>P\<close> followed by \<open>E\<close>, and \<open>P.Prepend(E)\<close> one whose sequence is \<open>E\<close>
  followed by that of \<open>P\<close>. Neither panics. In the store after the call \<open>P\<close> has the
  stage sequence and the name it had, as has every other chain, and \<open>Then\<close> on \<open>P\<close>
  gives the same result as before, for every context, input and world.
\<close>

theorem Append_Prepend_nondestructive:
  assumes "wf_heap h" and "stages h P = Some old"
  shows "(case Append P E h of
            (Inl p, h') \<Rightarrow> False
          | (Inr P', h') \<Rightarrow>
              P' \<noteq> P \<and> stages h' P' = Some (old @ E) \<and> stages h' P = Some old \<and>
              chain_name h' P = chain_name h P \<and> chains_preserved h h' \<and> wf_heap h' \<and>
              (\<forall>ctx x w. Then P ctx x h' w = Then P ctx x h w)) \<and>
         (case Prepend P E h of
            (Inl p, h') \<Rightarrow> False
          | (Inr P', h') \<Rightarrow>
              P' \<noteq> P \<and> stages h' P' = Some (E @ old) \<and> stages h' P = Some old \<and>
              chain_name h' P = chain_name h P \<and> chains_preserved h h' \<and> wf_heap h' \<and>
              (\<forall>ctx x w. Then P ctx x h' w = Then P ctx x h w))"
proof -
  from assms(2) obtain ch where ch: "deref h P = Some ch" and el: "elems h (middlewares ch) = old"
    by (auto simp: stages_def)
  from ch have P: "P < length (chains h)"
    by (simp add: deref_def split: if_splits)
  from assms(1) ch have v: "valid_slice h (middlewares ch)"
    by (rule wf_heap_deref)
  then have l: "len (middlewares ch) = length old"
    using el length_elems by metis
  have "case Append P E h of
            (Inl p, h') \<Rightarrow> False
          | (Inr P', h') \<Rightarrow>
              P' \<noteq> P \<and> stages h' P' = Some (old @ E) \<and> stages h' P = Some old \<and>
              chain_name h' P = chain_name h P \<and> chains_preserved h h' \<and> wf_heap h' \<and>
              (\<forall>ctx x w. Then P ctx x h' w = Then P ctx x h w)"
    using P assms l
    by (simp add: Append_eq [OF ch v] el stages_new stages_extend chain_name_extend
          chains_preserved_extend wf_heap_extend Then_extend)
  moreover have "case Prepend P E h of
            (Inl p, h') \<Rightarrow> False
          | (Inr P', h') \<Rightarrow>
              P' \<noteq> P \<and> stages h' P' = Some (E @ old) \<and> stages h' P = Some old \<and>
              chain_name h' P = chain_name h P \<and> chains_preserved h h' \<and> wf_heap h' \<and>
              (\<forall>ctx x w. Then P ctx x h' w = Then P ctx x h w)"
    using P assms l
    by (simp add: Prepend_eq [OF ch v] el stages_new stages_extend chain_name_extend
          chains_preserved_extend wf_heap_extend Then_extend)
  ultimately show ?thesis
    by simp
qed

theorem Append_Prepend_nondestructive_witness:
  "wf_heap (snd base_chain) \<and>
   stages (snd base_chain) (fst base_chain) = Some [Some counting_stage] \<and>
   (case Append (fst base_chain) [Some (failing_stage ''bad'')] (snd base_chain) of
      (Inl p, h') \<Rightarrow> False
    | (Inr P', h') \<Rightarrow>
        P' \<noteq> fst base_chain \<and>
        stages h' P' = Some [Some counting_stage, Some (failing_stage ''bad'')] \<and>
        stages h' (fst base_chain) = Some [Some counting_stage] \<and>
        Then (fst base_chain) (Some Background) (IntV 5) h' 0 =
          Then (fst base_chain) (Some Background) (IntV 5) (snd base_chain) 0) \<and>
   (case Prepend (fst base_chain) [Some (failing_stage ''bad'')] (snd base_chain) of
      (Inl p, h') \<Rightarrow> False
    | (Inr P', h') \<Rightarrow>
        P' \<noteq> fst base_chain \<and>
        stages h' P' = Some [Some (failing_stage ''bad''), Some counting_stage] \<and>
        stages h' (fst base_chain) = Some [Some counting_stage] \<and>
        Then (fst base_chain) (Some Background) (IntV 5) h' 0 =
          Then (fst base_chain) (Some Background) (IntV 5) (snd base_chain) 0)"
proof -
  have h: "snd base_chain = \<lparr>arrays = [[Some counting_stage]],
             chains = [\<lparr>middlewares = \<lparr>array = 0, ofs = 0, len = 1\<rparr>, name = ''base''\<rparr>]\<rparr>"
    and c: "fst base_chain = 0"
    by (simp_all add: base_chain_def NewNamedChain_eq empty_heap_def)
  have wf: "wf_heap (snd base_chain)"
    unfolding h by (simp add: wf_heap_def valid_slice_def)
  have st: "stages (snd base_chain) (fst base_chain) = Some [Some counting_stage]"
    unfolding h c by (simp add: stages_def deref_def elems_def)
  show ?thesis
    using wf st Append_Prepend_nondestructive [OF wf st, of "[Some (failing_stage ''bad'')]"]
    by (auto split: prod.splits sum.splits)
qed

text \<open>
  C10: \<open>P.Append(E)\<close>, \<open>P.Prepend(E)\<close> and \<open>P.Clone()\<close> return a chain whose \<open>Name()\<close>
  is that of \<open>P\<close>. These three and the two constructors are the only operations that
  return a store (\<open>Then\<close>, \<open>Len\<close> and \<open>Name\<close> only read it), and each of them leaves the
  name and the stage sequence of every chain already in the store unchanged.
\<close>

theorem name_preserved_by_extension:
  assumes "wf_heap h" and "Name P h = Inr nm"
  shows "(case Append P E h of
            (Inl p, h') \<Rightarrow> False
          | (Inr P', h') \<Rightarrow> Name P' h' = Inr nm \<and> chains_preserved h h') \<and>
         (case Prepend P E h of
            (Inl p, h') \<Rightarrow> False
          | (Inr P', h') \<Rightarrow> Name P' h' = Inr nm \<and> chains_preserved h h') \<and>
         (case Clone P h of
            (Inl p, h') \<Rightarrow> False
          | (Inr P', h') \<Rightarrow> Name P' h' = Inr nm \<and> stages h' P' = stages h P \<and> chains_preserved h h') \<and>
         chains_preserved h (snd (NewChain E h)) \<and>
         chains_preserved h (snd (NewNamedChain nm' E h))"
proof -
  from assms(2) obtain ch where ch: "deref h P = Some ch" and n: "name ch = nm"
    by (auto simp: Name_def split: option.splits)
  from assms(1) ch have v: "valid_slice h (middlewares ch)"
    by (rule wf_heap_deref)
  have s: "stages h P = Some (elems h (middlewares ch))"
    using ch by (simp add: stages_def)
  have "case Append P E h of
            (Inl p, h') \<Rightarrow> False
          | (Inr P', h') \<Rightarrow> Name P' h' = Inr nm \<and> chains_preserved h h'"
    using assms(1) n by (simp add: Append_eq [OF ch v] Name_new chains_preserved_extend)
  moreover have "case Prepend P E h of
            (Inl p, h') \<Rightarrow> False
          | (Inr P', h') \<Rightarrow> Name P' h' = Inr nm \<and> chains_preserved h h'"
    using assms(1) n by (simp add: Prepend_eq [OF ch v] Name_new chains_preserved_extend)
  moreover have "case Clone P h of
            (Inl p, h') \<Rightarrow> False
          | (Inr P', h') \<Rightarrow> Name P' h' = Inr nm \<and> stages h' P' = stages h P \<and> chains_preserved h h'"
    using assms(1) n length_elems [OF v]
    by (simp add: Clone_eq [OF ch v] Name_new chains_preserved_extend s stages_new)
  moreover have "chains_preserved h (snd (NewChain E h))"
    using assms(1) by (simp add: NewChain_eq chains_preserved_extend)
  moreover have "chains_preserved h (snd (NewNamedChain nm' E h))"
    using assms(1) by (simp add: NewNamedChain_eq chains_preserved_extend)
  ultimately show ?thesis
    by simp
qed

theorem name_preserved_by_extension_witness:
  "wf_heap (snd base_chain) \<and>
   Name (fst base_chain) (snd base_chain) = Inr ''base'' \<and>
   (case Append (fst base_chain) [Some (failing_stage ''bad'')] (snd base_chain) of
      (Inl p, h') \<Rightarrow> False
    | (Inr P', h') \<Rightarrow> Name P' h' = Inr ''base'' \<and> chains_preserved (snd base_chain) h') \<and>
   (case Prepend (fst base_chain) [Some (failing_stage ''bad'')] (snd base_chain) of
      (Inl p, h') \<Rightarrow> False
    | (Inr P', h') \<Rightarrow> Name P' h' = Inr ''base'' \<and> chains_preserved (snd base_chain) h') \<and>
   (case Clone (fst base_chain) (snd base_chain) of
      (Inl p, h') \<Rightarrow> False
    | (Inr P', h') \<Rightarrow> Name P' h' = Inr ''base'' \<and> chains_preserved (snd base_chain) h')"
proof -
  have h: "snd base_chain = \<lparr>arrays = [[Some counting_stage]],
             chains = [\<lparr>middlewares = \<lparr>array = 0, ofs = 0, len = 1\<rparr>, name = ''base''\<rparr>]\<rparr>"
    and c: "fst base_chain = 0"
    by (simp_all add: base_chain_def NewNamedChain_eq empty_heap_def)
  have wf: "wf_heap (snd base_chain)"
    unfolding h by (simp add: wf_heap_def valid_slice_def)
  have nm: "Name (fst base_chain) (snd base_chain) = Inr ''base''"
    unfolding h c by (simp add: Name_def deref_def)
  show ?thesis
    using wf nm name_preserved_by_extension [OF wf nm, of "[Some (failing_stage ''bad'')]" "''other''"]
    by (auto split: prod.splits sum.splits)
qed

end
